theory Spec2Isabelle
  imports Complex_Main "HOL-Library.AList"
begin

section \<open>UDPRIP router: data model\<close>

text \<open>
  The program is one Python file, \<^verbatim>\<open>router.py\<close>. Addresses are Python strings;
  a \<open>char\<close> is one code point of a string, from U+0000 to U+00FF.
  A Python \<^verbatim>\<open>dict\<close> keeps its keys unique and in insertion order; it is modelled as
  an association list whose keys are distinct: \<^verbatim>\<open>d[k] = v\<close> is \<open>AList.update\<close>
  (overwrite in place, or append a new key at the end), \<^verbatim>\<open>d.pop(k)\<close> is
  \<open>AList.delete\<close>, \<^verbatim>\<open>d.get(k)\<close> is \<open>map_of\<close>. Python integers are unbounded: \<open>int\<close>.
  A hop set is a Python \<^verbatim>\<open>set[str]\<close>: \<open>string set\<close>.
\<close>

type_synonym address = string

type_synonym route = "int \<times> address set"

type_synonym routes = "(address \<times> route) list"

type_synonym vector = "(address \<times> int) list"

subsection \<open>RoutingTable\<close>

text \<open>\<^verbatim>\<open>RoutingTable.__init__\<close>: \<^verbatim>\<open>self._routes = {my_ip: (0, {my_ip})}\<close>.\<close>

definition init_routes :: "address \<Rightarrow> routes" where
  "init_routes my_ip = [(my_ip, (0, {my_ip}))]"

text \<open>\<^verbatim>\<open>RoutingTable.distance\<close>: the tuple \<^verbatim>\<open>e\<close> is truthy whenever it is present.\<close>

definition distance :: "routes \<Rightarrow> address \<Rightarrow> int option" where
  "distance rt dst = (case map_of rt dst of None \<Rightarrow> None | Some e \<Rightarrow> Some (fst e))"

text \<open>
  \<^verbatim>\<open>RoutingTable.export\<close>: the loop over \<^verbatim>\<open>self._routes.items()\<close>, with the result
  dictionary \<^verbatim>\<open>res\<close> as accumulator.
\<close>

fun export_loop :: "address \<Rightarrow> routes \<Rightarrow> vector \<Rightarrow> vector" where
  "export_loop to_neighbor [] res = res"
| "export_loop to_neighbor ((d, (cost, hops)) # rest) res =
     export_loop to_neighbor rest
       (if to_neighbor \<notin> hops then AList.update d cost res else res)"

definition export :: "routes \<Rightarrow> address \<Rightarrow> vector" where
  "export rt to_neighbor = export_loop to_neighbor rt []"

text \<open>
  \<^verbatim>\<open>RoutingTable.learn_neighbor_vector\<close>, first loop, over \<^verbatim>\<open>vector.items()\<close>:
  install, strictly relax, or join at equal cost. \<^verbatim>\<open>cur[1].add(nbr)\<close> mutates the hop
  set stored in the table; every hop set in the table is an object of its own
  (each one is created by a fresh \<^verbatim>\<open>{...}\<close> display), so only the entry of \<open>dst\<close> changes.
\<close>

fun relax :: "address \<Rightarrow> int \<Rightarrow> vector \<Rightarrow> routes \<Rightarrow> routes" where
  "relax nbr w_nbr [] rt = rt"
| "relax nbr w_nbr ((dst, d_via_nbr) # rest) rt =
     (let total = w_nbr + d_via_nbr in
      relax nbr w_nbr rest
        (case map_of rt dst of
           None \<Rightarrow> AList.update dst (total, {nbr}) rt
         | Some (cost, hops) \<Rightarrow>
             if total < cost then AList.update dst (total, {nbr}) rt
             else if total = cost then AList.update dst (cost, insert nbr hops) rt
             else rt))"

text \<open>
  Second loop, over the snapshot \<^verbatim>\<open>list(self._routes.items())\<close>: the snapshot is the
  second list argument, the table being mutated the last one. \<^verbatim>\<open>dst in vector\<close> and
  \<^verbatim>\<open>vector[dst]\<close> are one lookup in the model.
\<close>

fun withdraw :: "address \<Rightarrow> int \<Rightarrow> vector \<Rightarrow> routes \<Rightarrow> routes \<Rightarrow> routes" where
  "withdraw nbr w_nbr vec [] rt = rt"
| "withdraw nbr w_nbr vec ((dst, (cost, hops)) # snapshot) rt =
     withdraw nbr w_nbr vec snapshot
       (if nbr \<in> hops then
          (case map_of vec dst of
             None \<Rightarrow> rt
           | Some d \<Rightarrow>
               let new_cost = w_nbr + d in
               if new_cost > cost then
                 (let hops' = hops - {nbr} in
                  if hops' = {} then AList.delete dst rt
                  else AList.update dst (cost, hops') rt)
               else rt)
        else rt)"

definition learn_neighbor_vector :: "address \<Rightarrow> int \<Rightarrow> vector \<Rightarrow> routes \<Rightarrow> routes" where
  "learn_neighbor_vector nbr w_nbr vec rt =
     (let rt1 = relax nbr w_nbr vec rt in withdraw nbr w_nbr vec rt1 rt1)"

text \<open>
  \<^verbatim>\<open>RoutingTable.purge_hop\<close>: the loop over the key snapshot
  \<^verbatim>\<open>list(self._routes.keys())\<close>. \<^verbatim>\<open>self._routes[dst]\<close> cannot raise: the keys are
  distinct and an iteration pops no key but its own; the model leaves the table as it
  is in that case.
\<close>

fun purge_loop :: "address \<Rightarrow> address list \<Rightarrow> routes \<Rightarrow> routes" where
  "purge_loop broken_nh [] rt = rt"
| "purge_loop broken_nh (dst # keys) rt =
     purge_loop broken_nh keys
       (case map_of rt dst of
          None \<Rightarrow> rt
        | Some (cost, hops) \<Rightarrow>
            if broken_nh \<in> hops then
              (let hops' = hops - {broken_nh} in
               if hops' = {} then AList.delete dst rt
               else AList.update dst (cost, hops') rt)
            else rt)"

definition purge_hop :: "address \<Rightarrow> routes \<Rightarrow> routes" where
  "purge_hop broken_nh rt = purge_loop broken_nh (map fst rt) rt"

text \<open>\<^verbatim>\<open>RoutingTable.add_direct\<close>.\<close>

definition add_direct :: "address \<Rightarrow> int \<Rightarrow> routes \<Rightarrow> routes" where
  "add_direct neighbor_ip weight rt = AList.update neighbor_ip (weight, {neighbor_ip}) rt"

subsection \<open>Messages\<close>

text \<open>
  A message is the dictionary that \<^verbatim>\<open>json.loads\<close> returns: string keys, JSON values.
  The values carried here are integers, strings, arrays and objects; JSON floats,
  booleans and null are outside the model.
\<close>

datatype json = JInt int | JStr string | JList "json list" | JObj "(string \<times> json) list"

type_synonym msg = "(string \<times> json) list"

text \<open>The exceptions that the modelled code can raise.\<close>

datatype error = KeyError | TypeError | AttributeError | ValueError | IndexError

definition mk_data :: "json \<Rightarrow> json \<Rightarrow> json \<Rightarrow> msg" where
  "mk_data src dst payload =
     [(''type'', JStr ''data''), (''source'', src), (''destination'', dst), (''payload'', payload)]"

definition mk_trace :: "json \<Rightarrow> json \<Rightarrow> json \<Rightarrow> msg" where
  "mk_trace src dst routers =
     [(''type'', JStr ''trace''), (''source'', src), (''destination'', dst), (''routers'', routers)]"

definition mk_control :: "json \<Rightarrow> json \<Rightarrow> json \<Rightarrow> json \<Rightarrow> msg" where
  "mk_control src dst reason original =
     [(''type'', JStr ''control''), (''source'', src), (''destination'', dst),
      (''reason'', reason), (''original'', original)]"

subsection \<open>LinkTable\<close>

text \<open>\<^verbatim>\<open>time.time()\<close> is a parameter of the operations that read the clock.\<close>

record neighbor =
  weight :: int
  last_seen :: real

type_synonym link_table = "(address \<times> neighbor) list"

definition link_add :: "address \<Rightarrow> int \<Rightarrow> real \<Rightarrow> link_table \<Rightarrow> link_table" where
  "link_add ip w now nbrs = AList.update ip \<lparr>weight = w, last_seen = now\<rparr> nbrs"

definition link_remove :: "address \<Rightarrow> link_table \<Rightarrow> link_table" where
  "link_remove ip nbrs = AList.delete ip nbrs"

definition link_weight :: "link_table \<Rightarrow> address \<Rightarrow> int option" where
  "link_weight nbrs ip = (case map_of nbrs ip of None \<Rightarrow> None | Some n \<Rightarrow> Some (weight n))"

definition link_touch :: "address \<Rightarrow> real \<Rightarrow> link_table \<Rightarrow> link_table" where
  "link_touch ip now nbrs =
     (case map_of nbrs ip of
        None \<Rightarrow> nbrs
      | Some n \<Rightarrow> AList.update ip (n\<lparr>last_seen := now\<rparr>) nbrs)"

subsection \<open>Router\<close>

text \<open>
  The state that the handlers share. What a handler does beyond changing this state is
  returned as a list of events (a datagram handed to \<^verbatim>\<open>sock.sendto\<close>, a line printed),
  followed by the exception it raised, if any: the state is the one reached when the
  exception was raised.
\<close>

record router =
  my_ip :: address
  links :: link_table
  rt :: routes
  running :: bool

datatype event =
    Sent msg address
  | Print string
  | Print_link_added address int
  | Print_link_removed address
  | Print_routes routes
  | Print_payload json
  | Print_control json json

type_synonym result = "router \<times> event list \<times> error option"

text \<open>
  What the handlers take from outside the program: the clock, the builtin \<^verbatim>\<open>int()\<close>
  (\<open>None\<close> is its \<^verbatim>\<open>ValueError\<close>), \<^verbatim>\<open>json.dumps\<close>, and the draws of
  \<^verbatim>\<open>random.choice\<close>; \<open>_forward_or_notify\<close> draws at most twice, independently.
\<close>

record env =
  clock :: real
  parse_int :: "string \<Rightarrow> int option"
  json_dumps :: "json \<Rightarrow> string"
  draw1 :: "address set \<Rightarrow> address"
  draw2 :: "address set \<Rightarrow> address"

text \<open>
  \<^verbatim>\<open>RoutingTable.next_hop\<close>, called with whatever the message holds as its address:
  a list or an object is unhashable (\<^verbatim>\<open>TypeError\<close>), an integer is no key of the
  table. \<^verbatim>\<open>random.choice\<close> raises \<^verbatim>\<open>IndexError\<close> on an empty sequence.
\<close>

definition next_hop :: "(address set \<Rightarrow> address) \<Rightarrow> routes \<Rightarrow> json \<Rightarrow> error + address option" where
  "next_hop choice table dst =
     (case dst of
        JStr d \<Rightarrow>
          (case map_of table d of
             None \<Rightarrow> Inr None
           | Some (cost, hops) \<Rightarrow>
               if hops = {} then Inl IndexError else Inr (Some (choice hops)))
      | JInt i \<Rightarrow> Inr None
      | JList xs \<Rightarrow> Inl TypeError
      | JObj kvs \<Rightarrow> Inl TypeError)"

text \<open>Python's truth value of an \<^verbatim>\<open>Optional[str]\<close>: \<^verbatim>\<open>None\<close> and the empty string are false.\<close>

definition truthy :: "address option \<Rightarrow> bool" where
  "truthy nh = (case nh of None \<Rightarrow> False | Some h \<Rightarrow> h \<noteq> [])"

text \<open>
  \<^verbatim>\<open>Router._send\<close>: the datagram is handed to \<^verbatim>\<open>sock.sendto\<close>; an \<^verbatim>\<open>OSError\<close> of the
  transport is caught and logged there. A target that is not a string is a
  \<^verbatim>\<open>TypeError\<close>, which is not caught.
\<close>

definition send :: "msg \<Rightarrow> json \<Rightarrow> event list \<times> error option" where
  "send m target_ip =
     (case target_ip of
        JStr ip \<Rightarrow> ([Sent m ip], None)
      | JInt i \<Rightarrow> ([], Some TypeError)
      | JList xs \<Rightarrow> ([], Some TypeError)
      | JObj kvs \<Rightarrow> ([], Some TypeError))"

definition forward_or_notify :: "env \<Rightarrow> router \<Rightarrow> msg \<Rightarrow> result" where
  "forward_or_notify e s m =
     (case map_of m ''destination'' of
        None \<Rightarrow> (s, [], Some KeyError)
      | Some dst \<Rightarrow>
          (case next_hop (draw1 e) (rt s) dst of
             Inl err \<Rightarrow> (s, [], Some err)
           | Inr nh \<Rightarrow>
               if truthy nh then (s, send m (JStr (the nh)))
               else
                 (case map_of m ''source'' of
                    None \<Rightarrow> (s, [], Some KeyError)
                  | Some src \<Rightarrow>
                      let ctrl = mk_control (JStr (my_ip s)) src (JStr ''unreachable'') (JObj m) in
                      (case map_of ctrl ''destination'' of
                         None \<Rightarrow> (s, [], Some KeyError)
                       | Some back_dst \<Rightarrow>
                           (case next_hop (draw2 e) (rt s) back_dst of
                              Inl err \<Rightarrow> (s, [], Some err)
                            | Inr back \<Rightarrow>
                                if truthy back then (s, send ctrl (JStr (the back)))
                                else (s, [], None))))))"

text \<open>
  \<^verbatim>\<open>Router._handle_update\<close>. The vector is \<^verbatim>\<open>msg["distances"]\<close> as decoded: the first
  loop of \<open>learn_neighbor_vector\<close> adds the weight to each value in turn, and raises
  \<^verbatim>\<open>TypeError\<close> at the first value that is not a number, with the entries before it
  already applied.
\<close>

fun int_prefix :: "(string \<times> json) list \<Rightarrow> vector" where
  "int_prefix [] = []"
| "int_prefix ((k, JInt i) # rest) = (k, i) # int_prefix rest"
| "int_prefix ((k, v) # rest) = []"

definition handle_update :: "env \<Rightarrow> router \<Rightarrow> msg \<Rightarrow> address \<Rightarrow> result" where
  "handle_update e s m src_ip =
     (let s1 = s\<lparr>links := link_touch src_ip (clock e) (links s)\<rparr> in
      case link_weight (links s1) src_ip of
        None \<Rightarrow> (s1, [], None)
      | Some w \<Rightarrow>
          (case map_of m ''distances'' of
             None \<Rightarrow> (s1, [], Some KeyError)
           | Some (JObj kvs) \<Rightarrow>
               if length (int_prefix kvs) = length kvs
               then (s1\<lparr>rt := learn_neighbor_vector src_ip w (int_prefix kvs) (rt s1)\<rparr>, [], None)
               else (s1\<lparr>rt := relax src_ip w (int_prefix kvs) (rt s1)\<rparr>, [], Some TypeError)
           | Some (JInt i) \<Rightarrow> (s1, [], Some AttributeError)
           | Some (JStr x) \<Rightarrow> (s1, [], Some AttributeError)
           | Some (JList xs) \<Rightarrow> (s1, [], Some AttributeError)))"

definition handle_data :: "env \<Rightarrow> router \<Rightarrow> msg \<Rightarrow> result" where
  "handle_data e s m =
     (case map_of m ''destination'' of
        None \<Rightarrow> (s, [], Some KeyError)
      | Some dst \<Rightarrow>
          if dst = JStr (my_ip s) then
            (case map_of m ''payload'' of
               None \<Rightarrow> (s, [], Some KeyError)
             | Some payload \<Rightarrow> (s, [Print_payload payload], None))
          else forward_or_notify e s m)"

text \<open>
  \<^verbatim>\<open>Router._handle_trace\<close>: \<^verbatim>\<open>msg["routers"].append\<close> changes the list inside the
  message, which is then the message that is serialised or forwarded.
\<close>

definition handle_trace :: "env \<Rightarrow> router \<Rightarrow> msg \<Rightarrow> result" where
  "handle_trace e s m =
     (case map_of m ''routers'' of
        None \<Rightarrow> (s, [], Some KeyError)
      | Some (JList routers) \<Rightarrow>
          (let m' = AList.update ''routers'' (JList (routers @ [JStr (my_ip s)])) m in
           case map_of m' ''destination'' of
             None \<Rightarrow> (s, [], Some KeyError)
           | Some dst \<Rightarrow>
               if dst = JStr (my_ip s) then
                 (case map_of m' ''source'' of
                    None \<Rightarrow> (s, [], Some KeyError)
                  | Some src \<Rightarrow>
                      let reply = mk_data (JStr (my_ip s)) src (JStr (json_dumps e (JObj m')))
                      in (s, send reply src))
               else forward_or_notify e s m')
      | Some (JInt i) \<Rightarrow> (s, [], Some AttributeError)
      | Some (JStr x) \<Rightarrow> (s, [], Some AttributeError)
      | Some (JObj kvs) \<Rightarrow> (s, [], Some AttributeError))"

definition handle_control :: "env \<Rightarrow> router \<Rightarrow> msg \<Rightarrow> result" where
  "handle_control e s m =
     (case map_of m ''destination'' of
        None \<Rightarrow> (s, [], Some KeyError)
      | Some dst \<Rightarrow>
          if dst = JStr (my_ip s) then
            (case map_of m ''reason'' of
               None \<Rightarrow> (s, [], Some KeyError)
             | Some reason \<Rightarrow>
                 (case map_of m ''original'' of
                    None \<Rightarrow> (s, [], Some KeyError)
                  | Some original \<Rightarrow> (s, [Print_control reason original], None)))
          else forward_or_notify e s m)"

definition dispatch :: "env \<Rightarrow> router \<Rightarrow> msg \<Rightarrow> address \<Rightarrow> result" where
  "dispatch e s m src_ip =
     (let t = map_of m ''type'' in
      if t = Some (JStr ''update'') then handle_update e s m src_ip
      else if t = Some (JStr ''data'') then handle_data e s m
      else if t = Some (JStr ''trace'') then handle_trace e s m
      else if t = Some (JStr ''control'') then handle_control e s m
      else (s, [], None))"

subsection \<open>Operator commands\<close>

text \<open>
  \<^verbatim>\<open>str.split()\<close> without arguments: the maximal runs of characters that are not
  whitespace. Python's whitespace characters among the code points of a \<open>char\<close> are
  U+0009 to U+000D, U+001C to U+001F, the space U+0020, the next-line control U+0085
  and the no-break space U+00A0.
\<close>

definition is_space :: "char \<Rightarrow> bool" where
  "is_space c \<longleftrightarrow>
     c \<in> set [CHR 0x20, CHR 0x09, CHR 0x0A, CHR 0x0B, CHR 0x0C, CHR 0x0D,
              CHR 0x1C, CHR 0x1D, CHR 0x1E, CHR 0x1F, CHR 0x85, CHR 0xA0]"

fun split_from :: "string \<Rightarrow> string \<Rightarrow> string list" where
  "split_from word [] = (if word = [] then [] else [word])"
| "split_from word (c # cs) =
     (if is_space c then (if word = [] then split_from [] cs else word # split_from [] cs)
      else split_from (word @ [c]) cs)"

definition split_ws :: "string \<Rightarrow> string list" where
  "split_ws s = split_from [] s"

definition usage :: string where
  "usage = ''Commands: add <ip> <w>, del <ip>, trace <ip>, quit''"

text \<open>\<^verbatim>\<open>Router.shutdown\<close>: the running flag is cleared and the socket closed.\<close>

definition shutdown :: "router \<Rightarrow> result" where
  "shutdown s = (s\<lparr>running := False\<rparr>, [Print ''x router closed''], None)"

text \<open>
  \<^verbatim>\<open>Router._exec_cmd\<close>. The \<^verbatim>\<open>match\<close> statement tries its cases in order; a case whose
  guard fails falls through to the next one. In the \<^verbatim>\<open>add\<close> case \<^verbatim>\<open>int(parts[2])\<close>
  is evaluated before either table is touched.
\<close>

definition exec_cmd :: "env \<Rightarrow> router \<Rightarrow> string \<Rightarrow> result" where
  "exec_cmd e s cmd =
     (if cmd = [] then (s, [], None)
      else
        let parts = split_ws cmd in
        case parts of
          [] \<Rightarrow> (s, [], Some IndexError)
        | p0 # args \<Rightarrow>
            if p0 = ''add'' \<and> length parts = 3 then
              (case parse_int e (parts ! 2) of
                 None \<Rightarrow> (s, [], Some ValueError)
               | Some w \<Rightarrow>
                   let ip = parts ! 1 in
                   (s\<lparr>links := link_add ip w (clock e) (links s),
                      rt := add_direct ip w (rt s)\<rparr>,
                    [Print_link_added ip w], None))
            else if p0 = ''del'' \<and> length parts = 2 then
              (let ip = parts ! 1 in
               (s\<lparr>links := link_remove ip (links s), rt := purge_hop ip (rt s)\<rparr>,
                [Print_link_removed ip], None))
            else if p0 = ''trace'' \<and> length parts = 2 then
              (let dst = parts ! 1;
                   t = mk_trace (JStr (my_ip s)) (JStr dst) (JList [JStr (my_ip s)])
               in forward_or_notify e s t)
            else if p0 = ''quit'' then shutdown s
            else if p0 = ''show'' then (s, [Print_routes (rt s)], None)
            else (s, [Print usage], None))"

section \<open>The update rule of the specification, entry by entry\<close>

text \<open>
  The two phases of \<open>learn_neighbor_vector\<close> as the specification words them, on finite
  maps: what happens to the entry of one destination. They are compared with the loops
  of the source below.
\<close>

definition spec_relax ::
  "address \<Rightarrow> int \<Rightarrow> (address \<rightharpoonup> int) \<Rightarrow> (address \<rightharpoonup> route) \<Rightarrow> (address \<rightharpoonup> route)" where
  "spec_relax nbr w_nbr vec m = (\<lambda>dst.
     case vec dst of
       None \<Rightarrow> m dst
     | Some d \<Rightarrow>
         (let total = w_nbr + d in
          case m dst of
            None \<Rightarrow> Some (total, {nbr})
          | Some (cost, hops) \<Rightarrow>
              if total < cost then Some (total, {nbr})
              else if total = cost then Some (cost, insert nbr hops)
              else Some (cost, hops)))"

definition spec_withdraw ::
  "address \<Rightarrow> int \<Rightarrow> (address \<rightharpoonup> int) \<Rightarrow> (address \<rightharpoonup> route) \<Rightarrow> (address \<rightharpoonup> route)" where
  "spec_withdraw nbr w_nbr vec m = (\<lambda>dst.
     case m dst of
       None \<Rightarrow> None
     | Some (cost, hops) \<Rightarrow>
         (case vec dst of
            None \<Rightarrow> Some (cost, hops)
          | Some d \<Rightarrow>
              if nbr \<in> hops \<and> w_nbr + d > cost then
                (if hops - {nbr} = {} then None else Some (cost, hops - {nbr}))
              else Some (cost, hops)))"

definition spec_learn ::
  "address \<Rightarrow> int \<Rightarrow> (address \<rightharpoonup> int) \<Rightarrow> (address \<rightharpoonup> route) \<Rightarrow> (address \<rightharpoonup> route)" where
  "spec_learn nbr w_nbr vec m = spec_withdraw nbr w_nbr vec (spec_relax nbr w_nbr vec m)"

text \<open>\<open>purge_hop\<close> in the words of the specification, for the entry of one destination.\<close>

definition spec_purge :: "address \<Rightarrow> (address \<rightharpoonup> route) \<Rightarrow> (address \<rightharpoonup> route)" where
  "spec_purge broken_nh m = (\<lambda>dst.
     case m dst of
       None \<Rightarrow> None
     | Some (cost, hops) \<Rightarrow>
         if broken_nh \<in> hops then
           (if hops - {broken_nh} = {} then None else Some (cost, hops - {broken_nh}))
         else Some (cost, hops))"

text \<open>
  After \<open>learn_neighbor_vector nbr w vec\<close>, every advertised destination that still has a
  route either has the advertised total as its cost with \<open>nbr\<close> among its hops, or a
  smaller cost without \<open>nbr\<close>.
\<close>

definition settled :: "address \<Rightarrow> int \<Rightarrow> (address \<rightharpoonup> int) \<Rightarrow> (address \<rightharpoonup> route) \<Rightarrow> bool" where
  "settled nbr w vec m \<longleftrightarrow>
     (\<forall>dst d cost hops. vec dst = Some d \<and> m dst = Some (cost, hops) \<longrightarrow>
        (cost = w + d \<and> nbr \<in> hops) \<or> (cost < w + d \<and> nbr \<notin> hops))"

section \<open>Invariants and runs of the routing table\<close>

definition hops_nonempty :: "routes \<Rightarrow> bool" where
  "hops_nonempty tbl \<longleftrightarrow> (\<forall>(dst, (cost, hops)) \<in> set tbl. hops \<noteq> {})"

definition cost_inv :: "address \<Rightarrow> routes \<Rightarrow> bool" where
  "cost_inv me tbl \<longleftrightarrow> (\<forall>(dst, (cost, hops)) \<in> set tbl. 0 \<le> cost \<and> (cost = 0 \<longleftrightarrow> dst = me))"

text \<open>No hop is the empty string, which Python's truth test would read as no hop.\<close>

definition hops_named :: "routes \<Rightarrow> bool" where
  "hops_named tbl \<longleftrightarrow> (\<forall>(dst, (cost, hops)) \<in> set tbl. [] \<notin> hops)"

text \<open>A sequence of operations on the routing table, applied from left to right.\<close>

datatype rt_op = Learn address int vector | Purge address | Add_direct address int

fun apply_op :: "rt_op \<Rightarrow> routes \<Rightarrow> routes" where
  "apply_op (Learn nbr w vec) tbl = learn_neighbor_vector nbr w vec tbl"
| "apply_op (Purge nh) tbl = purge_hop nh tbl"
| "apply_op (Add_direct ip w) tbl = add_direct ip w tbl"

definition run_ops :: "rt_op list \<Rightarrow> routes \<Rightarrow> routes" where
  "run_ops ops tbl = fold apply_op ops tbl"

text \<open>
  The operations of the data model of the specification: link weights are positive,
  advertised distances are not negative, and the node is not a neighbour of itself.
\<close>

fun op_ok :: "address \<Rightarrow> rt_op \<Rightarrow> bool" where
  "op_ok me (Learn nbr w vec) \<longleftrightarrow> nbr \<noteq> me \<and> 0 < w \<and> (\<forall>(dst, d) \<in> set vec. 0 \<le> d)"
| "op_ok me (Purge nh) \<longleftrightarrow> nh \<noteq> me"
| "op_ok me (Add_direct ip w) \<longleftrightarrow> ip \<noteq> me \<and> 0 < w"

text \<open>
  The costs of a table seen as a map, together with the route of the node to itself,
  which the operations above never touch.
\<close>

definition good_costs :: "address \<Rightarrow> (address \<rightharpoonup> route) \<Rightarrow> bool" where
  "good_costs me m \<longleftrightarrow>
     (\<forall>dst cost hops. m dst = Some (cost, hops) \<longrightarrow> 0 \<le> cost \<and> (cost = 0 \<longleftrightarrow> dst = me))
     \<and> (\<exists>hops. m me = Some (0, hops) \<and> me \<in> hops)"

section \<open>A node and an environment for the examples\<close>

text \<open>
  A reader of decimal numerals (an optional sign and one or more ASCII digits), which
  \<^verbatim>\<open>int()\<close> accepts with this value; it stands for \<^verbatim>\<open>int()\<close> in the examples only.
\<close>

fun digits_value :: "string \<Rightarrow> int \<Rightarrow> int option" where
  "digits_value [] acc = Some acc"
| "digits_value (c # cs) acc =
     (if c \<in> set ''0123456789'' then digits_value cs (10 * acc + (int (of_char c) - 48))
      else None)"

definition int_of_decimal :: "string \<Rightarrow> int option" where
  "int_of_decimal s =
     (case s of
        [] \<Rightarrow> None
      | c # cs \<Rightarrow>
          if cs \<noteq> [] \<and> c = CHR ''-'' then map_option uminus (digits_value cs 0)
          else if cs \<noteq> [] \<and> c = CHR ''+'' then digits_value cs 0
          else digits_value s 0)"

definition first_of :: "address \<Rightarrow> address \<Rightarrow> address set \<Rightarrow> address" where
  "first_of a b hops = (if a \<in> hops then a else b)"

definition example_env :: env where
  "example_env =
     \<lparr>clock = 0, parse_int = int_of_decimal, json_dumps = (\<lambda>j. ''{...}''),
      draw1 = first_of ''127.0.1.2'' ''127.0.1.1'', draw2 = first_of ''127.0.1.1'' ''127.0.1.2''\<rparr>"

definition example_router :: router where
  "example_router =
     \<lparr>my_ip = ''127.0.1.1'',
      links = [(''127.0.1.2'', \<lparr>weight = 10, last_seen = 0\<rparr>)],
      rt = [(''127.0.1.1'', (0, {''127.0.1.1''})), (''127.0.1.2'', (10, {''127.0.1.2''}))],
      running = True\<rparr>"

section \<open>Routing table: basic facts\<close>

lemma relax_distinct:
  "distinct (map fst tbl) \<Longrightarrow> distinct (map fst (relax nbr w vec tbl))"
proof (induction vec arbitrary: tbl)
  case Nil
  then show ?case by simp
next
  case (Cons e vec)
  obtain dst d where e: "e = (dst, d)" by (cases e)
  show ?case
    using Cons.prems e
    by (auto simp: Let_def distinct_update intro!: Cons.IH split: option.splits)
qed

lemma relax_lookup:
  "distinct (map fst vec) \<Longrightarrow>
   map_of (relax nbr w vec tbl) = spec_relax nbr w (map_of vec) (map_of tbl)"
proof (induction vec arbitrary: tbl)
  case Nil
  then show ?case by (simp add: spec_relax_def)
next
  case (Cons e vec)
  obtain dst0 d0 where e: "e = (dst0, d0)" by (cases e)
  from Cons.prems e have dv: "distinct (map fst vec)" and fresh: "map_of vec dst0 = None"
    by (auto simp: map_of_eq_None_iff)
  define tbl' where "tbl' =
    (case map_of tbl dst0 of
       None \<Rightarrow> AList.update dst0 (w + d0, {nbr}) tbl
     | Some (cost, hops) \<Rightarrow>
         if w + d0 < cost then AList.update dst0 (w + d0, {nbr}) tbl
         else if w + d0 = cost then AList.update dst0 (cost, insert nbr hops) tbl
         else tbl)"
  have step: "relax nbr w (e # vec) tbl = relax nbr w vec tbl'"
    by (simp add: e tbl'_def Let_def)
  have same: "map_of tbl' dst = map_of tbl dst" if "dst \<noteq> dst0" for dst
    using that by (auto simp: tbl'_def update_conv' split: option.splits)
  have at: "map_of tbl' dst0 = spec_relax nbr w (map_of (e # vec)) (map_of tbl) dst0"
    by (auto simp: tbl'_def e spec_relax_def Let_def update_conv' split: option.splits)
  have "spec_relax nbr w (map_of vec) (map_of tbl') dst =
        spec_relax nbr w (map_of (e # vec)) (map_of tbl) dst" for dst
  proof (cases "dst = dst0")
    case True
    then show ?thesis using at fresh by (simp add: spec_relax_def)
  next
    case False
    then show ?thesis using same [OF False] by (simp add: spec_relax_def e split: option.split)
  qed
  then have "spec_relax nbr w (map_of vec) (map_of tbl') =
             spec_relax nbr w (map_of (e # vec)) (map_of tbl)"
    by (rule ext)
  then show ?case unfolding step Cons.IH [OF dv] .
qed

lemma withdraw_distinct:
  "distinct (map fst tbl) \<Longrightarrow> distinct (map fst (withdraw nbr w vec snapshot tbl))"
proof (induction snapshot arbitrary: tbl)
  case Nil
  then show ?case by simp
next
  case (Cons e snapshot)
  obtain dst cost hops where e: "e = (dst, (cost, hops))" by (cases e) auto
  show ?case
    using Cons.prems e
    by (auto simp: Let_def distinct_update distinct_delete intro!: Cons.IH split: option.splits)
qed

lemma withdraw_lookup_gen:
  "distinct (map fst snapshot) \<Longrightarrow> (\<forall>(d, e) \<in> set snapshot. map_of tbl d = Some e) \<Longrightarrow>
   map_of (withdraw nbr w vec snapshot tbl) dst =
     (if dst \<in> fst ` set snapshot then spec_withdraw nbr w (map_of vec) (map_of tbl) dst
      else map_of tbl dst)"
proof (induction snapshot arbitrary: tbl)
  case Nil
  then show ?case by simp
next
  case (Cons e snapshot)
  obtain d0 c0 h0 where e: "e = (d0, (c0, h0))" by (cases e) auto
  from Cons.prems e have ds: "distinct (map fst snapshot)" and fresh: "d0 \<notin> fst ` set snapshot"
    and cur: "map_of tbl d0 = Some (c0, h0)"
    by auto
  define tbl' where "tbl' =
    (if nbr \<in> h0 then
       (case map_of vec d0 of
          None \<Rightarrow> tbl
        | Some d \<Rightarrow>
            let new_cost = w + d in
            if new_cost > c0 then
              (let hops' = h0 - {nbr} in
               if hops' = {} then AList.delete d0 tbl
               else AList.update d0 (c0, hops') tbl)
            else tbl)
     else tbl)"
  have step: "withdraw nbr w vec (e # snapshot) tbl = withdraw nbr w vec snapshot tbl'"
    by (simp add: e tbl'_def)
  have same: "map_of tbl' d = map_of tbl d" if "d \<noteq> d0" for d
    using that by (auto simp: tbl'_def Let_def update_conv' delete_conv' split: option.splits)
  have at: "map_of tbl' d0 = spec_withdraw nbr w (map_of vec) (map_of tbl) d0"
    using cur
    by (auto simp: tbl'_def Let_def spec_withdraw_def update_conv' delete_conv'
        split: option.splits)
  have pre: "\<forall>(d, e) \<in> set snapshot. map_of tbl' d = Some e"
  proof -
    have "map_of tbl' d = Some x" if "(d, x) \<in> set snapshot" for d x
    proof -
      from that fresh have "d \<noteq> d0" by force
      moreover from that Cons.prems(2) have "map_of tbl d = Some x" by auto
      ultimately show ?thesis by (simp add: same)
    qed
    then show ?thesis by auto
  qed
  have ptw: "spec_withdraw nbr w (map_of vec) (map_of tbl') d =
             spec_withdraw nbr w (map_of vec) (map_of tbl) d" if "d \<noteq> d0" for d
    using same [OF that] by (simp add: spec_withdraw_def)
  show ?case
  proof (cases "dst = d0")
    case True
    then show ?thesis
      unfolding step Cons.IH [OF ds pre] using fresh at e by simp
  next
    case False
    then show ?thesis
      unfolding step Cons.IH [OF ds pre] using same [OF False] ptw [OF False] e by simp
  qed
qed

lemma withdraw_lookup:
  assumes "distinct (map fst tbl)"
  shows "map_of (withdraw nbr w vec tbl tbl) = spec_withdraw nbr w (map_of vec) (map_of tbl)"
proof (rule ext)
  fix dst
  have pre: "\<forall>(d, e) \<in> set tbl. map_of tbl d = Some e"
    using assms by auto
  show "map_of (withdraw nbr w vec tbl tbl) dst = spec_withdraw nbr w (map_of vec) (map_of tbl) dst"
  proof (cases "dst \<in> fst ` set tbl")
    case True
    then show ?thesis by (simp add: withdraw_lookup_gen [OF assms pre])
  next
    case False
    then have "map_of tbl dst = None" by (simp add: map_of_eq_None_iff)
    then show ?thesis using False
      by (simp add: withdraw_lookup_gen [OF assms pre] spec_withdraw_def)
  qed
qed

lemma learn_distinct:
  "distinct (map fst tbl) \<Longrightarrow> distinct (map fst (learn_neighbor_vector nbr w vec tbl))"
  by (simp add: learn_neighbor_vector_def Let_def withdraw_distinct relax_distinct)

lemma learn_lookup:
  assumes "distinct (map fst tbl)" and "distinct (map fst vec)"
  shows "map_of (learn_neighbor_vector nbr w vec tbl) =
         spec_learn nbr w (map_of vec) (map_of tbl)"
  by (simp add: learn_neighbor_vector_def Let_def spec_learn_def
      withdraw_lookup [OF relax_distinct [OF assms(1)]] relax_lookup [OF assms(2)])

lemma purge_loop_distinct:
  "distinct (map fst tbl) \<Longrightarrow> distinct (map fst (purge_loop nh keys tbl))"
proof (induction keys arbitrary: tbl)
  case Nil
  then show ?case by simp
next
  case (Cons k keys)
  show ?case
    using Cons.prems
    by (auto simp: Let_def distinct_update distinct_delete intro!: Cons.IH split: option.splits)
qed

lemma purge_loop_lookup:
  "distinct keys \<Longrightarrow>
   map_of (purge_loop nh keys tbl) dst =
     (if dst \<in> set keys then spec_purge nh (map_of tbl) dst else map_of tbl dst)"
proof (induction keys arbitrary: tbl)
  case Nil
  then show ?case by simp
next
  case (Cons d0 keys)
  from Cons.prems have dk: "distinct keys" and fresh: "d0 \<notin> set keys" by auto
  define tbl' where "tbl' =
    (case map_of tbl d0 of
       None \<Rightarrow> tbl
     | Some (cost, hops) \<Rightarrow>
         if nh \<in> hops then
           (let hops' = hops - {nh} in
            if hops' = {} then AList.delete d0 tbl
            else AList.update d0 (cost, hops') tbl)
         else tbl)"
  have step: "purge_loop nh (d0 # keys) tbl = purge_loop nh keys tbl'"
    by (simp add: tbl'_def)
  have same: "map_of tbl' d = map_of tbl d" if "d \<noteq> d0" for d
    using that by (auto simp: tbl'_def Let_def update_conv' delete_conv' split: option.splits)
  have at: "map_of tbl' d0 = spec_purge nh (map_of tbl) d0"
    by (auto simp: tbl'_def Let_def spec_purge_def update_conv' delete_conv'
        split: option.splits)
  have ptw: "spec_purge nh (map_of tbl') d = spec_purge nh (map_of tbl) d" if "d \<noteq> d0" for d
    using same [OF that] by (simp add: spec_purge_def)
  show ?case
  proof (cases "dst = d0")
    case True
    then show ?thesis unfolding step Cons.IH [OF dk] using fresh at by simp
  next
    case False
    then show ?thesis
      unfolding step Cons.IH [OF dk] using same [OF False] ptw [OF False] by simp
  qed
qed

lemma purge_hop_distinct:
  "distinct (map fst tbl) \<Longrightarrow> distinct (map fst (purge_hop nh tbl))"
  by (simp add: purge_hop_def purge_loop_distinct)

lemma purge_hop_lookup:
  assumes "distinct (map fst tbl)"
  shows "map_of (purge_hop nh tbl) = spec_purge nh (map_of tbl)"
proof (rule ext)
  fix dst
  show "map_of (purge_hop nh tbl) dst = spec_purge nh (map_of tbl) dst"
  proof (cases "dst \<in> fst ` set tbl")
    case True
    then show ?thesis unfolding purge_hop_def purge_loop_lookup [OF assms] by simp
  next
    case False
    then have "map_of tbl dst = None" by (simp add: map_of_eq_None_iff)
    then show ?thesis using False
      unfolding purge_hop_def purge_loop_lookup [OF assms] by (simp add: spec_purge_def)
  qed
qed

lemma add_direct_distinct:
  "distinct (map fst tbl) \<Longrightarrow> distinct (map fst (add_direct ip w tbl))"
  by (simp add: add_direct_def distinct_update)

lemma add_direct_lookup:
  "map_of (add_direct ip w tbl) = (map_of tbl)(ip \<mapsto> (w, {ip}))"
  by (simp add: add_direct_def update_conv')

lemma init_routes_distinct: "distinct (map fst (init_routes me))"
  by (simp add: init_routes_def)

lemma export_loop_eq:
  "distinct (map fst tbl) \<Longrightarrow> fst ` set res \<inter> fst ` set tbl = {} \<Longrightarrow>
   export_loop n tbl res =
     res @ map (\<lambda>(d, (cost, hops)). (d, cost)) (filter (\<lambda>(d, (cost, hops)). n \<notin> hops) tbl)"
proof (induction tbl arbitrary: res)
  case Nil
  then show ?case by simp
next
  case (Cons e tbl)
  obtain d cost hops where e: "e = (d, (cost, hops))" by (cases e) auto
  have fresh: "d \<notin> fst ` set res" using Cons.prems(2) e by auto
  have upd: "AList.update d cost res = res @ [(d, cost)]"
    using fresh by (induction res) auto
  have dist: "distinct (map fst tbl)" and dnot: "d \<notin> fst ` set tbl"
    using Cons.prems(1) e by auto
  show ?case
  proof (cases "n \<in> hops")
    case True
    have "fst ` set res \<inter> fst ` set tbl = {}" using Cons.prems(2) by auto
    from Cons.IH [OF dist this] True e show ?thesis by simp
  next
    case False
    have "fst ` set (res @ [(d, cost)]) \<inter> fst ` set tbl = {}"
      using Cons.prems(2) dnot by auto
    from Cons.IH [OF dist this] False e upd show ?thesis by simp
  qed
qed

lemma export_eq:
  "distinct (map fst tbl) \<Longrightarrow>
   export tbl n =
     map (\<lambda>(d, (cost, hops)). (d, cost)) (filter (\<lambda>(d, (cost, hops)). n \<notin> hops) tbl)"
  by (simp add: export_def export_loop_eq)

lemma map_of_filtered_costs:
  "distinct (map fst tbl) \<Longrightarrow>
   map_of (map (\<lambda>(d, (cost, hops)). (d, cost)) (filter (\<lambda>(d, (cost, hops)). n \<notin> hops) tbl)) dst =
     (case map_of tbl dst of
        None \<Rightarrow> None
      | Some (cost, hops) \<Rightarrow> if n \<in> hops then None else Some cost)"
proof (induction tbl)
  case Nil
  then show ?case by simp
next
  case (Cons e tbl)
  obtain d cost hops where e: "e = (d, (cost, hops))" by (cases e) auto
  from Cons.prems e have dist: "distinct (map fst tbl)" and fresh: "map_of tbl d = None"
    by (auto simp: map_of_eq_None_iff)
  show ?case
    using Cons.IH [OF dist] fresh e by (auto split: option.splits)
qed

subsection \<open>A table on which an advertisement has nothing left to do\<close>

lemma spec_learn_settled: "settled nbr w vec (spec_learn nbr w vec m)"
  unfolding settled_def spec_learn_def spec_withdraw_def spec_relax_def
  by (auto simp: Let_def split: option.splits if_splits)

lemma learn_settled:
  assumes "distinct (map fst tbl)" and "distinct (map fst vec)"
  shows "settled nbr w (map_of vec) (map_of (learn_neighbor_vector nbr w vec tbl))"
  unfolding learn_lookup [OF assms] by (rule spec_learn_settled)

lemma relax_fixed:
  "(\<forall>(dst, d) \<in> set vec. \<exists>cost hops. map_of tbl dst = Some (cost, hops) \<and>
       ((cost = w + d \<and> nbr \<in> hops) \<or> cost < w + d)) \<Longrightarrow>
   relax nbr w vec tbl = tbl"
proof (induction vec)
  case Nil
  then show ?case by simp
next
  case (Cons e vec)
  obtain dst d where e: "e = (dst, d)" by (cases e)
  from Cons.prems e obtain cost hops where cur: "map_of tbl dst = Some (cost, hops)"
    and ok: "(cost = w + d \<and> nbr \<in> hops) \<or> cost < w + d"
    by auto
  have rest: "\<forall>(dst, d) \<in> set vec. \<exists>cost hops. map_of tbl dst = Some (cost, hops) \<and>
       ((cost = w + d \<and> nbr \<in> hops) \<or> cost < w + d)"
    using Cons.prems by simp
  have "(if w + d < cost then AList.update dst (w + d, {nbr}) tbl
         else if w + d = cost then AList.update dst (cost, insert nbr hops) tbl
         else tbl) = tbl"
    using ok cur by (auto simp: insert_absorb update_triv)
  then show ?case
    using Cons.IH [OF rest] cur e by (simp add: Let_def)
qed

lemma withdraw_fixed:
  "(\<forall>(dst, (cost, hops)) \<in> set snapshot. \<forall>d. nbr \<in> hops \<and> map_of vec dst = Some d
       \<longrightarrow> w + d \<le> cost) \<Longrightarrow>
   withdraw nbr w vec snapshot tbl = tbl"
proof (induction snapshot)
  case Nil
  then show ?case by simp
next
  case (Cons e snapshot)
  obtain dst cost hops where e: "e = (dst, (cost, hops))" by (cases e) auto
  have rest: "\<forall>(dst, (cost, hops)) \<in> set snapshot. \<forall>d. nbr \<in> hops \<and> map_of vec dst = Some d
       \<longrightarrow> w + d \<le> cost"
    using Cons.prems by simp
  have here: "w + d \<le> cost" if "nbr \<in> hops" and "map_of vec dst = Some d" for d
    using Cons.prems e that by auto
  show ?case
    using Cons.IH [OF rest] e here by (auto simp: Let_def split: option.splits)
qed

lemma learn_fixed:
  assumes dist: "distinct (map fst tbl)" and dvec: "distinct (map fst vec)"
    and st: "settled nbr w (map_of vec) (map_of tbl)"
    and keys: "fst ` set vec \<subseteq> fst ` set tbl"
  shows "learn_neighbor_vector nbr w vec tbl = tbl"
proof -
  have "\<exists>cost hops. map_of tbl dst = Some (cost, hops) \<and>
          ((cost = w + d \<and> nbr \<in> hops) \<or> cost < w + d)" if "(dst, d) \<in> set vec" for dst d
  proof -
    from that dvec have v: "map_of vec dst = Some d" by simp
    from that keys have "dst \<in> fst ` set tbl" by force
    then obtain cost hops where r: "map_of tbl dst = Some (cost, hops)"
      by (cases "map_of tbl dst") (auto simp: map_of_eq_None_iff)
    from st v r show ?thesis unfolding settled_def by blast
  qed
  then have r: "relax nbr w vec tbl = tbl"
    by (intro relax_fixed) auto
  have "w + d \<le> cost"
    if "(dst, (cost, hops)) \<in> set tbl" and "nbr \<in> hops" and "map_of vec dst = Some d"
    for dst cost hops d
  proof -
    from that(1) dist have "map_of tbl dst = Some (cost, hops)" by simp
    with st that(2,3) show ?thesis unfolding settled_def by force
  qed
  then have "withdraw nbr w vec tbl tbl = tbl"
    by (intro withdraw_fixed) auto
  with r show ?thesis by (simp add: learn_neighbor_vector_def)
qed

lemma spec_learn_installs:
  "vec dst = Some d \<Longrightarrow> m dst = None \<Longrightarrow> spec_learn nbr w vec m dst = Some (w + d, {nbr})"
  by (simp add: spec_learn_def spec_withdraw_def spec_relax_def)

lemma spec_learn_keeps_settled:
  assumes "settled nbr w vec m" and "vec dst = Some d" and "m dst = Some e"
  shows "spec_learn nbr w vec m dst = Some e"
proof -
  obtain cost hops where e: "e = (cost, hops)" by (cases e)
  from assms e have "(cost = w + d \<and> nbr \<in> hops) \<or> (cost < w + d \<and> nbr \<notin> hops)"
    unfolding settled_def by blast
  then show ?thesis
    using assms(2,3) e
    by (auto simp: spec_learn_def spec_withdraw_def spec_relax_def Let_def insert_absorb)
qed

lemma keys_after_second_learn:
  assumes dist: "distinct (map fst tbl)" and dvec: "distinct (map fst vec)"
  shows "fst ` set vec \<subseteq>
         fst ` set (learn_neighbor_vector nbr w vec (learn_neighbor_vector nbr w vec tbl))"
proof
  fix dst
  assume "dst \<in> fst ` set vec"
  then obtain d where v: "map_of vec dst = Some d"
    by (cases "map_of vec dst") (auto simp: map_of_eq_None_iff)
  let ?tbl1 = "learn_neighbor_vector nbr w vec tbl"
  have d1: "distinct (map fst ?tbl1)" by (rule learn_distinct [OF dist])
  have st: "settled nbr w (map_of vec) (map_of ?tbl1)" by (rule learn_settled [OF dist dvec])
  have "map_of (learn_neighbor_vector nbr w vec ?tbl1) dst \<noteq> None"
  proof (cases "map_of ?tbl1 dst")
    case None
    then show ?thesis
      unfolding learn_lookup [OF d1 dvec] using v by (simp add: spec_learn_installs)
  next
    case (Some e)
    from spec_learn_keeps_settled [OF st v Some] show ?thesis
      unfolding learn_lookup [OF d1 dvec] by simp
  qed
  then show "dst \<in> fst ` set (learn_neighbor_vector nbr w vec ?tbl1)"
    by (simp add: map_of_eq_None_iff)
qed

subsection \<open>Hop sets stay non-empty\<close>

lemma set_update_subset: "set (AList.update k v al) \<subseteq> insert (k, v) (set al)"
  by (induction al) auto

lemma set_delete_subset: "set (AList.delete k al) \<subseteq> set al"
  by (auto simp: AList.delete_eq)

lemma hops_nonempty_update:
  "hops_nonempty tbl \<Longrightarrow> hops \<noteq> {} \<Longrightarrow> hops_nonempty (AList.update dst (cost, hops) tbl)"
  using set_update_subset [of dst "(cost, hops)" tbl]
  unfolding hops_nonempty_def by blast

lemma hops_nonempty_delete:
  "hops_nonempty tbl \<Longrightarrow> hops_nonempty (AList.delete dst tbl)"
  using set_delete_subset [of dst tbl] unfolding hops_nonempty_def by blast

lemma relax_nonempty:
  "hops_nonempty tbl \<Longrightarrow> hops_nonempty (relax nbr w vec tbl)"
proof (induction vec arbitrary: tbl)
  case Nil
  then show ?case by simp
next
  case (Cons e vec)
  obtain dst d where e: "e = (dst, d)" by (cases e)
  show ?case
    using Cons.prems e
    by (auto simp: Let_def hops_nonempty_update intro!: Cons.IH split: option.splits)
qed

lemma withdraw_nonempty:
  "hops_nonempty tbl \<Longrightarrow> hops_nonempty (withdraw nbr w vec snapshot tbl)"
proof (induction snapshot arbitrary: tbl)
  case Nil
  then show ?case by simp
next
  case (Cons e snapshot)
  obtain dst cost hops where e: "e = (dst, (cost, hops))" by (cases e) auto
  have "hops_nonempty
          (if nbr \<in> hops then
             (case map_of vec dst of
                None \<Rightarrow> tbl
              | Some d \<Rightarrow>
                  let new_cost = w + d in
                  if new_cost > cost then
                    (let hops' = hops - {nbr} in
                     if hops' = {} then AList.delete dst tbl
                     else AList.update dst (cost, hops') tbl)
                  else tbl)
           else tbl)"
    using Cons.prems
    by (simp add: Let_def hops_nonempty_update hops_nonempty_delete split: option.splits)
  from Cons.IH [OF this] show ?case by (simp add: e)
qed

lemma learn_nonempty:
  "hops_nonempty tbl \<Longrightarrow> hops_nonempty (learn_neighbor_vector nbr w vec tbl)"
  by (simp add: learn_neighbor_vector_def Let_def relax_nonempty withdraw_nonempty)

lemma purge_loop_nonempty:
  "hops_nonempty tbl \<Longrightarrow> hops_nonempty (purge_loop nh keys tbl)"
proof (induction keys arbitrary: tbl)
  case Nil
  then show ?case by simp
next
  case (Cons k keys)
  have "hops_nonempty
          (case map_of tbl k of
             None \<Rightarrow> tbl
           | Some (cost, hops) \<Rightarrow>
               if nh \<in> hops then
                 (let hops' = hops - {nh} in
                  if hops' = {} then AList.delete k tbl
                  else AList.update k (cost, hops') tbl)
               else tbl)"
    using Cons.prems
    by (simp add: Let_def hops_nonempty_update hops_nonempty_delete split: option.splits)
  from Cons.IH [OF this] show ?case by simp
qed

lemma purge_hop_nonempty:
  "hops_nonempty tbl \<Longrightarrow> hops_nonempty (purge_hop nh tbl)"
  by (simp add: purge_hop_def purge_loop_nonempty)

lemma add_direct_nonempty:
  "hops_nonempty tbl \<Longrightarrow> hops_nonempty (add_direct ip w tbl)"
  by (simp add: add_direct_def hops_nonempty_update)

lemma init_routes_nonempty: "hops_nonempty (init_routes me)"
  by (simp add: init_routes_def hops_nonempty_def)

lemma apply_op_nonempty:
  "hops_nonempty tbl \<Longrightarrow> hops_nonempty (apply_op op tbl)"
  by (cases op) (simp_all add: learn_nonempty purge_hop_nonempty add_direct_nonempty)

lemma run_ops_nonempty:
  "hops_nonempty tbl \<Longrightarrow> hops_nonempty (run_ops ops tbl)"
  unfolding run_ops_def
  by (induction ops arbitrary: tbl) (simp_all add: apply_op_nonempty)

subsection \<open>Costs\<close>

lemma good_costs_relax_step:
  assumes "good_costs me m" and "0 < w" and "0 \<le> d"
  shows "good_costs me (m(dst \<mapsto>
           (case m dst of
              None \<Rightarrow> (w + d, {nbr})
            | Some (cost, hops) \<Rightarrow>
                if w + d < cost then (w + d, {nbr})
                else if w + d = cost then (cost, insert nbr hops)
                else (cost, hops))))"
proof -
  from assms(1) obtain h0 where own: "m me = Some (0, h0)" "me \<in> h0"
    unfolding good_costs_def by blast
  from assms(1) have all: "\<And>x c h. m x = Some (c, h) \<Longrightarrow> 0 \<le> c \<and> (c = 0 \<longleftrightarrow> x = me)"
    unfolding good_costs_def by blast
  show ?thesis
  proof (cases "dst = me")
    case True
    with own assms(2,3) have "m(dst \<mapsto>
           (case m dst of
              None \<Rightarrow> (w + d, {nbr})
            | Some (cost, hops) \<Rightarrow>
                if w + d < cost then (w + d, {nbr})
                else if w + d = cost then (cost, insert nbr hops)
                else (cost, hops))) = m"
      by (auto simp: fun_eq_iff)
    with assms(1) show ?thesis by simp
  next
    case False
    show ?thesis
      unfolding good_costs_def
    proof (intro conjI allI impI)
      fix x c h
      assume look: "(m(dst \<mapsto>
           (case m dst of
              None \<Rightarrow> (w + d, {nbr})
            | Some (cost, hops) \<Rightarrow>
                if w + d < cost then (w + d, {nbr})
                else if w + d = cost then (cost, insert nbr hops)
                else (cost, hops)))) x = Some (c, h)"
      show "0 \<le> c"
        using look assms(2,3) False
        by (cases "x = dst") (auto split: option.splits if_splits dest: all)
      show "(c = 0) = (x = me)"
      proof (cases "x = dst")
        case True
        then show ?thesis
          using look assms(2,3) False all [of dst]
          by (cases "m dst") (auto split: if_splits)
      next
        case neq: False
        then show ?thesis using look all [of x c h] by simp
      qed
    next
      show "\<exists>hops. (m(dst \<mapsto>
           (case m dst of
              None \<Rightarrow> (w + d, {nbr})
            | Some (cost, hops) \<Rightarrow>
                if w + d < cost then (w + d, {nbr})
                else if w + d = cost then (cost, insert nbr hops)
                else (cost, hops)))) me = Some (0, hops) \<and> me \<in> hops"
        using own False by auto
    qed
  qed
qed

lemma relax_good_costs:
  "good_costs me (map_of tbl) \<Longrightarrow> 0 < w \<Longrightarrow> (\<forall>(dst, d) \<in> set vec. 0 \<le> d) \<Longrightarrow>
   good_costs me (map_of (relax nbr w vec tbl))"
proof (induction vec arbitrary: tbl)
  case Nil
  then show ?case by simp
next
  case (Cons e vec)
  obtain dst d where e: "e = (dst, d)" by (cases e)
  from Cons.prems e have d: "0 \<le> d" and rest: "\<forall>(dst, d) \<in> set vec. 0 \<le> d" by auto
  define tbl' where "tbl' =
    (case map_of tbl dst of
       None \<Rightarrow> AList.update dst (w + d, {nbr}) tbl
     | Some (cost, hops) \<Rightarrow>
         if w + d < cost then AList.update dst (w + d, {nbr}) tbl
         else if w + d = cost then AList.update dst (cost, insert nbr hops) tbl
         else tbl)"
  have step: "relax nbr w (e # vec) tbl = relax nbr w vec tbl'"
    by (simp add: e tbl'_def Let_def)
  have "map_of tbl' = (map_of tbl)(dst \<mapsto>
           (case map_of tbl dst of
              None \<Rightarrow> (w + d, {nbr})
            | Some (cost, hops) \<Rightarrow>
                if w + d < cost then (w + d, {nbr})
                else if w + d = cost then (cost, insert nbr hops)
                else (cost, hops)))"
    by (auto simp: tbl'_def update_conv' fun_eq_iff split: option.splits)
  with good_costs_relax_step [OF Cons.prems(1,2) d, of dst nbr]
  have "good_costs me (map_of tbl')" by simp
  from Cons.IH [OF this Cons.prems(2) rest] show ?case unfolding step .
qed

lemma good_costs_spec_withdraw:
  assumes "good_costs me m" and "nbr \<noteq> me"
  shows "good_costs me (spec_withdraw nbr w vec m)"
proof -
  from assms(1) obtain h0 where own: "m me = Some (0, h0)" "me \<in> h0"
    unfolding good_costs_def by blast
  from assms(1) have all: "\<And>x c h. m x = Some (c, h) \<Longrightarrow> 0 \<le> c \<and> (c = 0 \<longleftrightarrow> x = me)"
    unfolding good_costs_def by blast
  have keep: "spec_withdraw nbr w vec m x = Some (c, h) \<Longrightarrow> \<exists>h'. m x = Some (c, h')" for x c h
    by (auto simp: spec_withdraw_def split: option.splits if_splits)
  have "\<exists>hops. spec_withdraw nbr w vec m me = Some (0, hops) \<and> me \<in> hops"
    using own assms(2) by (auto simp: spec_withdraw_def split: option.splits)
  moreover have "0 \<le> c \<and> (c = 0 \<longleftrightarrow> x = me)" if "spec_withdraw nbr w vec m x = Some (c, h)" for x c h
    using keep [OF that] all by blast
  ultimately show ?thesis unfolding good_costs_def by blast
qed

lemma good_costs_spec_purge:
  assumes "good_costs me m" and "nh \<noteq> me"
  shows "good_costs me (spec_purge nh m)"
proof -
  from assms(1) obtain h0 where own: "m me = Some (0, h0)" "me \<in> h0"
    unfolding good_costs_def by blast
  from assms(1) have all: "\<And>x c h. m x = Some (c, h) \<Longrightarrow> 0 \<le> c \<and> (c = 0 \<longleftrightarrow> x = me)"
    unfolding good_costs_def by blast
  have keep: "spec_purge nh m x = Some (c, h) \<Longrightarrow> \<exists>h'. m x = Some (c, h')" for x c h
    by (auto simp: spec_purge_def split: option.splits if_splits)
  have "\<exists>hops. spec_purge nh m me = Some (0, hops) \<and> me \<in> hops"
    using own assms(2) by (auto simp: spec_purge_def split: option.splits)
  moreover have "0 \<le> c \<and> (c = 0 \<longleftrightarrow> x = me)" if "spec_purge nh m x = Some (c, h)" for x c h
    using keep [OF that] all by blast
  ultimately show ?thesis unfolding good_costs_def by blast
qed

lemma good_costs_add_direct:
  assumes "good_costs me m" and "ip \<noteq> me" and "0 < w"
  shows "good_costs me (m(ip \<mapsto> (w, {ip})))"
  using assms unfolding good_costs_def by auto

lemma apply_op_good_costs:
  assumes "distinct (map fst tbl)" and "good_costs me (map_of tbl)" and "op_ok me op"
  shows "distinct (map fst (apply_op op tbl)) \<and> good_costs me (map_of (apply_op op tbl))"
proof (cases op)
  case (Learn nbr w vec)
  with assms(3) have ok: "nbr \<noteq> me" "0 < w" "\<forall>(dst, d) \<in> set vec. 0 \<le> d" by auto
  have d1: "distinct (map fst (relax nbr w vec tbl))" by (rule relax_distinct [OF assms(1)])
  have "good_costs me (map_of (relax nbr w vec tbl))"
    by (rule relax_good_costs [OF assms(2) ok(2,3)])
  then have "good_costs me (map_of (learn_neighbor_vector nbr w vec tbl))"
    by (simp add: learn_neighbor_vector_def Let_def withdraw_lookup [OF d1]
        good_costs_spec_withdraw [OF _ ok(1)])
  with Learn learn_distinct [OF assms(1)] show ?thesis by simp
next
  case (Purge nh)
  with assms(3) have "nh \<noteq> me" by simp
  from good_costs_spec_purge [OF assms(2) this] Purge purge_hop_distinct [OF assms(1)]
  show ?thesis by (simp add: purge_hop_lookup [OF assms(1)])
next
  case (Add_direct ip w)
  with assms(3) have "ip \<noteq> me" "0 < w" by auto
  from good_costs_add_direct [OF assms(2) this] Add_direct add_direct_distinct [OF assms(1)]
  show ?thesis by (simp add: add_direct_lookup)
qed

lemma run_ops_good_costs:
  "distinct (map fst tbl) \<Longrightarrow> good_costs me (map_of tbl) \<Longrightarrow> (\<forall>op \<in> set ops. op_ok me op) \<Longrightarrow>
   distinct (map fst (run_ops ops tbl)) \<and> good_costs me (map_of (run_ops ops tbl))"
proof (induction ops arbitrary: tbl)
  case Nil
  then show ?case by (simp add: run_ops_def)
next
  case (Cons op ops)
  from Cons.prems have ok: "op_ok me op" and rest: "\<forall>op \<in> set ops. op_ok me op" by auto
  from apply_op_good_costs [OF Cons.prems(1,2) ok]
  have "distinct (map fst (apply_op op tbl))" and "good_costs me (map_of (apply_op op tbl))"
    by auto
  from Cons.IH [OF this rest] show ?case by (simp add: run_ops_def)
qed

lemma good_costs_cost_inv:
  assumes "distinct (map fst tbl)" and "good_costs me (map_of tbl)"
  shows "cost_inv me tbl"
  using assms unfolding cost_inv_def good_costs_def by fastforce

lemma init_routes_good_costs: "good_costs me (map_of (init_routes me))"
  by (simp add: init_routes_def good_costs_def)

subsection \<open>The handlers and the routing table\<close>

lemma forward_or_notify_state: "fst (forward_or_notify e s m) = s"
  by (auto simp: forward_or_notify_def send_def Let_def split: option.splits sum.splits json.splits)

lemma exec_cmd_nonempty:
  assumes "hops_nonempty (rt s)"
  shows "hops_nonempty (rt (fst (exec_cmd e s cmd)))"
proof (cases "cmd = []")
  case True
  with assms show ?thesis by (simp add: exec_cmd_def)
next
  case False
  show ?thesis
  proof (cases "split_ws cmd")
    case Nil
    with assms False show ?thesis by (simp add: exec_cmd_def)
  next
    case (Cons p0 args)
    with assms False show ?thesis
      by (auto simp: exec_cmd_def Let_def shutdown_def forward_or_notify_state
          add_direct_nonempty purge_hop_nonempty split: option.splits)
  qed
qed

lemma handle_update_nonempty:
  assumes "hops_nonempty (rt s)"
  shows "hops_nonempty (rt (fst (handle_update e s m src_ip)))"
  using assms
  by (auto simp: handle_update_def Let_def learn_nonempty relax_nonempty
      split: option.splits json.splits)

lemma dispatch_nonempty:
  assumes "hops_nonempty (rt s)"
  shows "hops_nonempty (rt (fst (dispatch e s m src_ip)))"
proof -
  have "fst (handle_data e s m) = s"
    by (auto simp: handle_data_def forward_or_notify_state split: option.splits)
  moreover have "fst (handle_control e s m) = s"
    by (auto simp: handle_control_def forward_or_notify_state split: option.splits)
  moreover have "fst (handle_trace e s m) = s"
    by (auto simp: handle_trace_def Let_def forward_or_notify_state split: option.splits json.splits)
  ultimately show ?thesis
    using assms handle_update_nonempty [OF assms, of e m src_ip]
    by (simp add: dispatch_def Let_def)
qed


subsection \<open>Hops have names\<close>

text \<open>
  The router never installs the empty string as a hop: the words of an operator command
  are not empty, and the sender address of a datagram is not.
\<close>

lemma hops_named_update:
  "hops_named tbl \<Longrightarrow> [] \<notin> hops \<Longrightarrow> hops_named (AList.update dst (cost, hops) tbl)"
  using set_update_subset [of dst "(cost, hops)" tbl]
  unfolding hops_named_def by blast

lemma hops_named_delete:
  "hops_named tbl \<Longrightarrow> hops_named (AList.delete dst tbl)"
  using set_delete_subset [of dst tbl] unfolding hops_named_def by blast

lemma hops_named_lookup:
  "hops_named tbl \<Longrightarrow> map_of tbl dst = Some (cost, hops) \<Longrightarrow> [] \<notin> hops"
  unfolding hops_named_def by (auto dest: map_of_SomeD)

lemma relax_named:
  "hops_named tbl \<Longrightarrow> nbr \<noteq> [] \<Longrightarrow> hops_named (relax nbr w vec tbl)"
proof (induction vec arbitrary: tbl)
  case Nil
  then show ?case by simp
next
  case (Cons e vec)
  obtain dst d where e: "e = (dst, d)" by (cases e)
  have "hops_named
          (case map_of tbl dst of
             None \<Rightarrow> AList.update dst (w + d, {nbr}) tbl
           | Some (cost, hops) \<Rightarrow>
               if w + d < cost then AList.update dst (w + d, {nbr}) tbl
               else if w + d = cost then AList.update dst (cost, insert nbr hops) tbl
               else tbl)"
    using Cons.prems hops_named_lookup [OF Cons.prems(1), of dst]
    by (auto simp: hops_named_update split: option.splits)
  from Cons.IH [OF this Cons.prems(2)] show ?case by (simp add: e Let_def)
qed

lemma withdraw_named:
  "hops_named tbl \<Longrightarrow> (\<forall>(dst, (cost, hops)) \<in> set snapshot. [] \<notin> hops) \<Longrightarrow>
   hops_named (withdraw nbr w vec snapshot tbl)"
proof (induction snapshot arbitrary: tbl)
  case Nil
  then show ?case by simp
next
  case (Cons e snapshot)
  obtain dst cost hops where e: "e = (dst, (cost, hops))" by (cases e) auto
  from Cons.prems(2) e have h: "[] \<notin> hops"
    and rest: "\<forall>(dst, (cost, hops)) \<in> set snapshot. [] \<notin> hops" by auto
  have "hops_named
          (if nbr \<in> hops then
             (case map_of vec dst of
                None \<Rightarrow> tbl
              | Some d \<Rightarrow>
                  let new_cost = w + d in
                  if new_cost > cost then
                    (let hops' = hops - {nbr} in
                     if hops' = {} then AList.delete dst tbl
                     else AList.update dst (cost, hops') tbl)
                  else tbl)
           else tbl)"
    using Cons.prems(1) h
    by (simp add: Let_def hops_named_update hops_named_delete split: option.splits)
  from Cons.IH [OF this rest] show ?case by (simp add: e)
qed

lemma learn_named:
  assumes "hops_named tbl" and "nbr \<noteq> []"
  shows "hops_named (learn_neighbor_vector nbr w vec tbl)"
proof -
  have r: "hops_named (relax nbr w vec tbl)" by (rule relax_named [OF assms])
  then have "\<forall>(dst, (cost, hops)) \<in> set (relax nbr w vec tbl). [] \<notin> hops"
    by (simp add: hops_named_def)
  from withdraw_named [OF r this] show ?thesis
    by (simp add: learn_neighbor_vector_def Let_def)
qed

lemma purge_loop_named:
  "hops_named tbl \<Longrightarrow> hops_named (purge_loop nh keys tbl)"
proof (induction keys arbitrary: tbl)
  case Nil
  then show ?case by simp
next
  case (Cons k keys)
  have "hops_named
          (case map_of tbl k of
             None \<Rightarrow> tbl
           | Some (cost, hops) \<Rightarrow>
               if nh \<in> hops then
                 (let hops' = hops - {nh} in
                  if hops' = {} then AList.delete k tbl
                  else AList.update k (cost, hops') tbl)
               else tbl)"
    using Cons.prems hops_named_lookup [OF Cons.prems, of k]
    by (auto simp: Let_def hops_named_update hops_named_delete split: option.splits)
  from Cons.IH [OF this] show ?case by simp
qed

lemma split_from_words:
  "x \<in> set (split_from word cs) \<Longrightarrow> x \<noteq> []"
  by (induction cs arbitrary: word) (auto split: if_splits)

lemma split_ws_words: "x \<in> set (split_ws cmd) \<Longrightarrow> x \<noteq> []"
  unfolding split_ws_def by (rule split_from_words)

lemma add_direct_named:
  "hops_named tbl \<Longrightarrow> ip \<noteq> [] \<Longrightarrow> hops_named (add_direct ip w tbl)"
  by (simp add: add_direct_def hops_named_update)

lemma purge_hop_named: "hops_named tbl \<Longrightarrow> hops_named (purge_hop nh tbl)"
  by (simp add: purge_hop_def purge_loop_named)

lemma exec_cmd_named:
  assumes "hops_named (rt s)"
  shows "hops_named (rt (fst (exec_cmd e s cmd)))"
proof (cases "cmd = []")
  case True
  with assms show ?thesis by (simp add: exec_cmd_def)
next
  case False
  show ?thesis
  proof (cases "split_ws cmd")
    case Nil
    with assms False show ?thesis by (simp add: exec_cmd_def)
  next
    case (Cons p0 args)
    have word: "(p0 # args) ! 1 \<noteq> []" if "length args = 2"
    proof -
      from that have "(p0 # args) ! 1 \<in> set (p0 # args)" by (intro nth_mem) simp
      then have "(p0 # args) ! 1 \<in> set (split_ws cmd)" unfolding Cons .
      then show ?thesis by (rule split_ws_words)
    qed
    have add: "hops_named (add_direct ((p0 # args) ! 1) w (rt s))" if "length args = 2" for w
      by (rule add_direct_named [OF assms word [OF that]])
    have del: "hops_named (purge_hop ((p0 # args) ! 1) (rt s))"
      by (rule purge_hop_named [OF assms])
    from assms False Cons add del show ?thesis
      by (simp add: exec_cmd_def Let_def shutdown_def forward_or_notify_state
          split: option.splits)
  qed
qed

lemma dispatch_named:
  assumes "hops_named (rt s)" and "src_ip \<noteq> []"
  shows "hops_named (rt (fst (dispatch e s m src_ip)))"
proof -
  have "fst (handle_data e s m) = s"
    by (auto simp: handle_data_def forward_or_notify_state split: option.splits)
  moreover have "fst (handle_control e s m) = s"
    by (auto simp: handle_control_def forward_or_notify_state split: option.splits)
  moreover have "fst (handle_trace e s m) = s"
    by (auto simp: handle_trace_def Let_def forward_or_notify_state split: option.splits json.splits)
  moreover have "hops_named (rt (fst (handle_update e s m src_ip)))"
    using assms
    by (auto simp: handle_update_def Let_def learn_named relax_named
        split: option.splits json.splits)
  ultimately show ?thesis
    using assms(1) by (simp add: dispatch_def Let_def)
qed

section \<open>Claims about the routing table\<close>

text \<open>
  C4. For every routing-table state and every neighbour \<open>n\<close>, \<open>export tbl n\<close> is exactly
  the mapping from destination to cost over the routes whose hop set does not contain
  \<open>n\<close> (in table order), so no route whose hop set includes \<open>n\<close> is exported
  (split horizon).
\<close>

theorem export_split_horizon:
  assumes "distinct (map fst tbl)"
  shows "export tbl n =
           map (\<lambda>(d, (cost, hops)). (d, cost)) (filter (\<lambda>(d, (cost, hops)). n \<notin> hops) tbl)
         \<and> (\<forall>dst. map_of (export tbl n) dst =
               (case map_of tbl dst of
                  None \<Rightarrow> None
                | Some (cost, hops) \<Rightarrow> if n \<in> hops then None else Some cost))
         \<and> (\<forall>dst cost hops. map_of tbl dst = Some (cost, hops) \<and> n \<in> hops
               \<longrightarrow> map_of (export tbl n) dst = None)"
proof -
  have lk: "map_of (export tbl n) dst =
      (case map_of tbl dst of
         None \<Rightarrow> None
       | Some (cost, hops) \<Rightarrow> if n \<in> hops then None else Some cost)" for dst
    by (simp only: export_eq [OF assms] map_of_filtered_costs [OF assms])
  show ?thesis
    using export_eq [OF assms] lk by simp
qed

theorem export_split_horizon_witness:
  "distinct (map fst [(''A'', (0::int, {''A''})), (''B'', (5, {''B''})), (''C'', (7, {''B'', ''D''}))])
   \<and> export [(''A'', (0, {''A''})), (''B'', (5, {''B''})), (''C'', (7, {''B'', ''D''}))] ''B''
       = [(''A'', 0)]
   \<and> map_of (export [(''A'', (0, {''A''})), (''B'', (5, {''B''})), (''C'', (7, {''B'', ''D''}))] ''B'')
       ''C'' = None"
  using export_split_horizon
    [of "[(''A'', (0, {''A''})), (''B'', (5, {''B''})), (''C'', (7, {''B'', ''D''}))]" "''B''"]
  by simp

text \<open>
  C1. \<open>learn_neighbor_vector nbr w vec\<close> is the two-phase update of the specification:
  first every advertised destination is installed (no route), strictly relaxed to
  \<open>(total, {nbr})\<close> (\<open>total\<close> below the current cost), or joined by \<open>nbr\<close> (equal cost);
  afterwards every route whose hop set contains \<open>nbr\<close> and whose destination is
  advertised at a total strictly above the stored cost loses \<open>nbr\<close>, and is deleted when
  its hop set becomes empty. Tables and vectors are Python dictionaries: their keys are
  distinct.
\<close>

theorem learn_neighbor_vector_two_phase:
  assumes "distinct (map fst tbl)" and "distinct (map fst vec)"
  shows "map_of (learn_neighbor_vector nbr w vec tbl) =
         spec_withdraw nbr w (map_of vec) (spec_relax nbr w (map_of vec) (map_of tbl))"
  using learn_lookup [OF assms] by (simp add: spec_learn_def)

theorem learn_neighbor_vector_two_phase_witness:
  "distinct (map fst [(''A'', (0::int, {''A''})), (''X'', (5, {''N''})), (''Y'', (9, {''M''})),
       (''Z'', (4, {''M''}))])
   \<and> distinct (map fst [(''X'', 10::int), (''Y'', 3), (''Z'', 3), (''V'', 1)])
   \<and> map_of (learn_neighbor_vector ''N'' 1 [(''X'', 10), (''Y'', 3), (''Z'', 3), (''V'', 1)]
        [(''A'', (0, {''A''})), (''X'', (5, {''N''})), (''Y'', (9, {''M''})), (''Z'', (4, {''M''}))])
      = spec_withdraw ''N'' 1 (map_of [(''X'', 10), (''Y'', 3), (''Z'', 3), (''V'', 1)])
          (spec_relax ''N'' 1 (map_of [(''X'', 10), (''Y'', 3), (''Z'', 3), (''V'', 1)])
             (map_of [(''A'', (0, {''A''})), (''X'', (5, {''N''})), (''Y'', (9, {''M''})),
                (''Z'', (4, {''M''}))]))
   \<and> learn_neighbor_vector ''N'' 1 [(''X'', 10), (''Y'', 3), (''Z'', 3), (''V'', 1)]
        [(''A'', (0, {''A''})), (''X'', (5, {''N''})), (''Y'', (9, {''M''})), (''Z'', (4, {''M''}))]
      = [(''A'', (0, {''A''})), (''Y'', (4, {''N''})), (''Z'', (4, {''M'', ''N''})),
         (''V'', (2, {''N''}))]"
proof -
  have d1: "distinct (map fst [(''A'', (0::int, {''A''})), (''X'', (5, {''N''})),
      (''Y'', (9, {''M''})), (''Z'', (4, {''M''}))])"
    by simp
  have d2: "distinct (map fst [(''X'', 10::int), (''Y'', 3), (''Z'', 3), (''V'', 1)])"
    by simp
  have run: "learn_neighbor_vector ''N'' 1 [(''X'', 10), (''Y'', 3), (''Z'', 3), (''V'', 1)]
        [(''A'', (0, {''A''})), (''X'', (5, {''N''})), (''Y'', (9, {''M''})), (''Z'', (4, {''M''}))]
      = [(''A'', (0, {''A''})), (''Y'', (4, {''N''})), (''Z'', (4, {''M'', ''N''})),
         (''V'', (2, {''N''}))]"
    by (simp add: learn_neighbor_vector_def Let_def insert_commute)
  from learn_neighbor_vector_two_phase [OF d1 d2, of "''N''" 1] d1 d2 run
  show ?thesis by blast
qed

text \<open>
  C10. A destination that has a route both before and after one call of
  \<open>learn_neighbor_vector\<close> ends the call with a cost that is at most its cost before:
  one advertisement never raises a stored cost.
\<close>

theorem learn_never_raises_cost:
  assumes "distinct (map fst tbl)" and "distinct (map fst vec)"
    and "map_of tbl dst = Some (cost, hops)"
    and "map_of (learn_neighbor_vector nbr w vec tbl) dst = Some (cost', hops')"
  shows "cost' \<le> cost"
  using assms(3,4) unfolding learn_lookup [OF assms(1,2)]
  by (auto simp: spec_learn_def spec_withdraw_def spec_relax_def Let_def
      split: option.splits if_splits)

theorem learn_never_raises_cost_witness:
  "distinct (map fst [(''A'', (0::int, {''A''})), (''Y'', (9, {''M''}))])
   \<and> distinct (map fst [(''Y'', 3::int)])
   \<and> map_of [(''A'', (0::int, {''A''})), (''Y'', (9, {''M''}))] ''Y'' = Some (9, {''M''})
   \<and> map_of (learn_neighbor_vector ''N'' 1 [(''Y'', 3)]
         [(''A'', (0, {''A''})), (''Y'', (9, {''M''}))]) ''Y'' = Some (4, {''N''})
   \<and> (4::int) \<le> 9"
proof -
  have d1: "distinct (map fst [(''A'', (0::int, {''A''})), (''Y'', (9, {''M''}))])" by simp
  have d2: "distinct (map fst [(''Y'', 3::int)])" by simp
  have before: "map_of [(''A'', (0::int, {''A''})), (''Y'', (9, {''M''}))] ''Y'' = Some (9, {''M''})"
    by simp
  have after: "map_of (learn_neighbor_vector ''N'' 1 [(''Y'', 3)]
         [(''A'', (0, {''A''})), (''Y'', (9, {''M''}))]) ''Y'' = Some (4, {''N''})"
    by (simp add: learn_neighbor_vector_def Let_def)
  from learn_never_raises_cost [OF d1 d2 before after] d1 d2 before after
  show ?thesis by blast
qed

text \<open>
  C5 (as stated: two calls of \<open>learn_neighbor_vector\<close> with the same neighbour, weight and
  vector give the table of one call). It fails where the first call withdraws an
  advertised destination: the second call installs it again.
\<close>

theorem learn_twice_counterexample:
  "learn_neighbor_vector ''N'' 1 [(''X'', 10)]
     (learn_neighbor_vector ''N'' 1 [(''X'', 10)] [(''A'', (0, {''A''})), (''X'', (5, {''N''}))])
   \<noteq> learn_neighbor_vector ''N'' 1 [(''X'', 10)] [(''A'', (0, {''A''})), (''X'', (5, {''N''}))]
   \<and> learn_neighbor_vector ''N'' 1 [(''X'', 10)] [(''A'', (0, {''A''})), (''X'', (5, {''N''}))]
       = [(''A'', (0, {''A''}))]
   \<and> learn_neighbor_vector ''N'' 1 [(''X'', 10)] [(''A'', (0, {''A''}))]
       = [(''A'', (0, {''A''})), (''X'', (11, {''N''}))]"
  by (simp add: learn_neighbor_vector_def Let_def)

text \<open>
  C5, amended. Two calls in a row give the table of one call if and only if the first
  call leaves a route for every destination of the vector; and in every case a third
  call leaves the table of the second call as it is.
\<close>

theorem learn_twice:
  assumes "distinct (map fst tbl)" and "distinct (map fst vec)"
  shows "(learn_neighbor_vector nbr w vec (learn_neighbor_vector nbr w vec tbl)
            = learn_neighbor_vector nbr w vec tbl
          \<longleftrightarrow> fst ` set vec \<subseteq> fst ` set (learn_neighbor_vector nbr w vec tbl))
         \<and> learn_neighbor_vector nbr w vec
             (learn_neighbor_vector nbr w vec (learn_neighbor_vector nbr w vec tbl))
            = learn_neighbor_vector nbr w vec (learn_neighbor_vector nbr w vec tbl)"
proof -
  let ?tbl1 = "learn_neighbor_vector nbr w vec tbl"
  let ?tbl2 = "learn_neighbor_vector nbr w vec ?tbl1"
  have d1: "distinct (map fst ?tbl1)" by (rule learn_distinct [OF assms(1)])
  have d2: "distinct (map fst ?tbl2)" by (rule learn_distinct [OF d1])
  have s1: "settled nbr w (map_of vec) (map_of ?tbl1)" by (rule learn_settled [OF assms])
  have s2: "settled nbr w (map_of vec) (map_of ?tbl2)" by (rule learn_settled [OF d1 assms(2)])
  have k2: "fst ` set vec \<subseteq> fst ` set ?tbl2" by (rule keys_after_second_learn [OF assms])
  have "?tbl2 = ?tbl1" if "fst ` set vec \<subseteq> fst ` set ?tbl1"
    by (rule learn_fixed [OF d1 assms(2) s1 that])
  moreover have "fst ` set vec \<subseteq> fst ` set ?tbl1" if "?tbl2 = ?tbl1"
    using k2 that by simp
  moreover have "learn_neighbor_vector nbr w vec ?tbl2 = ?tbl2"
    by (rule learn_fixed [OF d2 assms(2) s2 k2])
  ultimately show ?thesis by blast
qed

theorem learn_twice_witness:
  "distinct (map fst [(''A'', (0::int, {''A''})), (''Y'', (9, {''M''}))])
   \<and> distinct (map fst [(''Y'', 3::int)])
   \<and> fst ` set [(''Y'', 3::int)]
        \<subseteq> fst ` set (learn_neighbor_vector ''N'' 1 [(''Y'', 3)]
                        [(''A'', (0, {''A''})), (''Y'', (9, {''M''}))])
   \<and> learn_neighbor_vector ''N'' 1 [(''Y'', 3)]
       (learn_neighbor_vector ''N'' 1 [(''Y'', 3)] [(''A'', (0, {''A''})), (''Y'', (9, {''M''}))])
     = learn_neighbor_vector ''N'' 1 [(''Y'', 3)] [(''A'', (0, {''A''})), (''Y'', (9, {''M''}))]"
proof -
  have d1: "distinct (map fst [(''A'', (0::int, {''A''})), (''Y'', (9, {''M''}))])" by simp
  have d2: "distinct (map fst [(''Y'', 3::int)])" by simp
  have k: "fst ` set [(''Y'', 3::int)]
        \<subseteq> fst ` set (learn_neighbor_vector ''N'' 1 [(''Y'', 3)]
                        [(''A'', (0, {''A''})), (''Y'', (9, {''M''}))])"
    by (simp add: learn_neighbor_vector_def Let_def)
  from learn_twice [OF d1 d2, of "''N''" 1] d1 d2 k show ?thesis by blast
qed

text \<open>
  C2. Every route has a non-empty hop set after every operation: in the initial table,
  after \<open>learn_neighbor_vector\<close>, \<open>purge_hop\<close> and \<open>add_direct\<close> on a table that had the
  property, hence after every sequence of them from the initial table, and after every
  operator command (\<^verbatim>\<open>add\<close>, \<^verbatim>\<open>del\<close> and the others) and every received message.
  An operation that empties a hop set deletes the entry.
\<close>

theorem hop_sets_stay_nonempty:
  "hops_nonempty (init_routes me)
   \<and> (hops_nonempty tbl \<longrightarrow>
        hops_nonempty (learn_neighbor_vector nbr w vec tbl)
        \<and> hops_nonempty (purge_hop nh tbl)
        \<and> hops_nonempty (add_direct ip w' tbl))
   \<and> hops_nonempty (run_ops ops (init_routes me))
   \<and> (hops_nonempty (rt s) \<longrightarrow>
        hops_nonempty (rt (fst (exec_cmd e s cmd)))
        \<and> hops_nonempty (rt (fst (dispatch e s m src_ip))))"
  by (simp add: init_routes_nonempty learn_nonempty purge_hop_nonempty add_direct_nonempty
      run_ops_nonempty exec_cmd_nonempty dispatch_nonempty)

theorem hop_sets_stay_nonempty_witness:
  "hops_nonempty [(''A'', (0, {''A''})), (''B'', (5, {''B''})), (''C'', (7, {''B'', ''D''}))]
   \<and> purge_hop ''B'' [(''A'', (0, {''A''})), (''B'', (5, {''B''})), (''C'', (7, {''B'', ''D''}))]
       = [(''A'', (0, {''A''})), (''C'', (7, {''D''}))]
   \<and> hops_nonempty (purge_hop ''B''
        [(''A'', (0, {''A''})), (''B'', (5, {''B''})), (''C'', (7, {''B'', ''D''}))])
   \<and> hops_nonempty (rt example_router)
   \<and> hops_nonempty (rt (fst (exec_cmd example_env example_router ''del 127.0.1.2'')))"
proof -
  have a: "hops_nonempty [(''A'', (0, {''A''})), (''B'', (5, {''B''})), (''C'', (7, {''B'', ''D''}))]"
    by (simp add: hops_nonempty_def)
  have b: "purge_hop ''B'' [(''A'', (0, {''A''})), (''B'', (5, {''B''})), (''C'', (7, {''B'', ''D''}))]
       = [(''A'', (0, {''A''})), (''C'', (7, {''D''}))]"
    by (simp add: purge_hop_def Let_def insert_Diff_if)
  have c: "hops_nonempty (rt example_router)"
    by (simp add: hops_nonempty_def example_router_def)
  from hop_sets_stay_nonempty
    [of "''A''" "[(''A'', (0, {''A''})), (''B'', (5, {''B''})), (''C'', (7, {''B'', ''D''}))]"
       "''B''" 1 "[]" "''B''" "''B''" 1 "[]" example_router example_env "''del 127.0.1.2''" "[]" "''B''"]
    a b c
  show ?thesis by simp
qed

text \<open>
  C3 (as stated: after every sequence of operations from the initial table, costs are
  not negative and a cost is 0 exactly for the node's own address). The operator may
  add a link to the node's own address, which overwrites the route of cost 0.
\<close>

theorem cost_invariant_counterexample:
  "\<not> cost_inv ''127.0.1.1'' (run_ops [Add_direct ''127.0.1.1'' 5] (init_routes ''127.0.1.1''))"
  by (simp add: cost_inv_def run_ops_def add_direct_def init_routes_def)

text \<open>
  C3, amended. After every sequence of operations from the initial table in which
  weights are positive, advertised distances are not negative, and the node's own
  address is never the neighbour of \<open>add_direct\<close>, \<open>learn_neighbor_vector\<close> or
  \<open>purge_hop\<close>, every cost is non-negative, and it is 0 exactly for the node's own
  address.
\<close>

theorem cost_invariant:
  assumes "\<forall>op \<in> set ops. op_ok me op"
  shows "cost_inv me (run_ops ops (init_routes me))"
proof -
  from run_ops_good_costs [OF init_routes_distinct init_routes_good_costs assms]
  show ?thesis by (simp add: good_costs_cost_inv)
qed

theorem cost_invariant_witness:
  "op_ok ''A'' (Add_direct ''B'' 10)
   \<and> op_ok ''A'' (Learn ''B'' 10 [(''C'', 5), (''A'', 10)])
   \<and> op_ok ''A'' (Purge ''D'')
   \<and> run_ops [Add_direct ''B'' 10, Learn ''B'' 10 [(''C'', 5), (''A'', 10)], Purge ''D'']
        (init_routes ''A'')
      = [(''A'', (0, {''A''})), (''B'', (10, {''B''})), (''C'', (15, {''B''}))]
   \<and> cost_inv ''A''
        (run_ops [Add_direct ''B'' 10, Learn ''B'' 10 [(''C'', 5), (''A'', 10)], Purge ''D'']
           (init_routes ''A''))"
proof -
  have ok: "\<forall>op \<in> set [Add_direct ''B'' 10, Learn ''B'' 10 [(''C'', 5), (''A'', 10)], Purge ''D''].
      op_ok ''A'' op"
    by simp
  have run: "run_ops [Add_direct ''B'' 10, Learn ''B'' 10 [(''C'', 5), (''A'', 10)], Purge ''D'']
        (init_routes ''A'')
      = [(''A'', (0, {''A''})), (''B'', (10, {''B''})), (''C'', (15, {''B''}))]"
    by (simp add: run_ops_def add_direct_def init_routes_def learn_neighbor_vector_def
        purge_hop_def Let_def)
  have each: "op_ok ''A'' (Add_direct ''B'' 10)"
    "op_ok ''A'' (Learn ''B'' 10 [(''C'', 5), (''A'', 10)])" "op_ok ''A'' (Purge ''D'')"
    by simp_all
  from cost_invariant [OF ok] each run show ?thesis by blast
qed

section \<open>Claims about the handlers\<close>



text \<open>
  C7. An update that arrives from an address that is not in the link table changes
  neither table: \<open>link_touch\<close> returns the link table as it is, \<open>link_weight\<close> is absent, and
  the handler returns the state as it was, with nothing sent or printed and no
  exception; \<open>learn_neighbor_vector\<close> is not reached.
\<close>

theorem update_from_non_neighbor:
  assumes "map_of (links s) src_ip = None"
  shows "link_touch src_ip (clock e) (links s) = links s
         \<and> link_weight (links s) src_ip = None
         \<and> handle_update e s m src_ip = (s, [], None)
         \<and> (map_of m ''type'' = Some (JStr ''update'') \<longrightarrow> dispatch e s m src_ip = (s, [], None))"
  using assms
  by (simp add: link_touch_def link_weight_def handle_update_def dispatch_def Let_def)

theorem update_from_non_neighbor_witness:
  "map_of (links example_router) ''127.0.1.7'' = None
   \<and> map_of [(''type'', JStr ''update''), (''source'', JStr ''127.0.1.7''),
        (''destination'', JStr ''127.0.1.1''), (''distances'', JObj [(''127.0.1.9'', JInt 1)])]
       ''type'' = Some (JStr ''update'')
   \<and> dispatch example_env example_router
        [(''type'', JStr ''update''), (''source'', JStr ''127.0.1.7''),
         (''destination'', JStr ''127.0.1.1''), (''distances'', JObj [(''127.0.1.9'', JInt 1)])]
        ''127.0.1.7''
      = (example_router, [], None)"
proof -
  have a: "map_of (links example_router) ''127.0.1.7'' = None"
    by (simp add: example_router_def)
  from update_from_non_neighbor [OF a, of example_env
      "[(''type'', JStr ''update''), (''source'', JStr ''127.0.1.7''),
        (''destination'', JStr ''127.0.1.1''), (''distances'', JObj [(''127.0.1.9'', JInt 1)])]"] a
  show ?thesis by simp
qed



text \<open>
  C9 (as stated: every line that is not a well-formed \<^verbatim>\<open>add\<close>, \<^verbatim>\<open>del\<close>, \<^verbatim>\<open>trace\<close> or
  \<^verbatim>\<open>quit\<close> command prints the usage hint). The code has a fifth command,
  \<^verbatim>\<open>show\<close>, which prints the routing table and no usage hint.
\<close>

theorem exec_cmd_show_counterexample:
  "exec_cmd example_env example_router ''show''
     = (example_router, [Print_routes (rt example_router)], None)
   \<and> Print usage \<notin> set (fst (snd (exec_cmd example_env example_router ''show'')))"
  by (simp add: exec_cmd_def split_ws_def is_space_def)

text \<open>
  An \<^verbatim>\<open>add\<close> with two arguments whose weight is no integer raises \<^verbatim>\<open>ValueError\<close>
  out of \<^verbatim>\<open>int()\<close>: nothing is printed, and no table is changed.
\<close>

lemma exec_cmd_add_not_an_integer:
  "exec_cmd example_env example_router ''add 127.0.1.3 abc'' = (example_router, [], Some ValueError)"
  by (simp add: exec_cmd_def split_ws_def is_space_def example_env_def int_of_decimal_def)

lemma split_ws_Nil: "split_ws [] = []"
  by (simp add: split_ws_def)

text \<open>
  A no-break space separates words as a space does: this line is an \<^verbatim>\<open>add\<close> with two
  arguments, and it installs the link and the direct route.
\<close>

lemma exec_cmd_add_after_no_break_space:
  "split_ws (''add'' @ [CHR 0xA0] @ ''127.0.1.3 7'') = [''add'', ''127.0.1.3'', ''7'']
   \<and> exec_cmd example_env example_router (''add'' @ [CHR 0xA0] @ ''127.0.1.3 7'')
       = (example_router
            \<lparr>links := link_add ''127.0.1.3'' 7 0 (links example_router),
             rt := add_direct ''127.0.1.3'' 7 (rt example_router)\<rparr>,
          [Print_link_added ''127.0.1.3'' 7], None)"
  by (simp add: exec_cmd_def split_ws_def is_space_def example_env_def int_of_decimal_def Let_def)

text \<open>
  C9, amended. An empty line does nothing. A line of at least one word whose first word
  is not \<^verbatim>\<open>add\<close> with two arguments, \<^verbatim>\<open>del\<close> with one, \<^verbatim>\<open>trace\<close> with one,
  \<^verbatim>\<open>quit\<close> or \<^verbatim>\<open>show\<close> prints the usage hint, which is one line, and changes
  no table. \<^verbatim>\<open>show\<close> prints the routing table and changes no table. The words of
  a line are those of \<^verbatim>\<open>str.split()\<close>: it is split at every whitespace character
  of Python among the code points U+0000 to U+00FF, the no-break space and the
  next-line control included.
\<close>

theorem exec_cmd_unrecognised:
  "exec_cmd e s [] = (s, [], None)
   \<and> (\<forall>p0 args. split_ws cmd = p0 # args
        \<and> \<not> (p0 = ''add'' \<and> length args = 2) \<and> \<not> (p0 = ''del'' \<and> length args = 1)
        \<and> \<not> (p0 = ''trace'' \<and> length args = 1) \<and> p0 \<noteq> ''quit'' \<and> p0 \<noteq> ''show''
        \<longrightarrow> exec_cmd e s cmd = (s, [Print usage], None))
   \<and> (\<forall>args. split_ws cmd = ''show'' # args
        \<longrightarrow> exec_cmd e s cmd = (s, [Print_routes (rt s)], None))
   \<and> CHR 0x0A \<notin> set usage"
proof -
  have ne: "cmd \<noteq> []" if "split_ws cmd = p0 # args" for p0 args
    using that split_ws_Nil by auto
  have a: "exec_cmd e s [] = (s, [], None)" by (simp add: exec_cmd_def)
  have b: "exec_cmd e s cmd = (s, [Print usage], None)"
    if "split_ws cmd = p0 # args" "\<not> (p0 = ''add'' \<and> length args = 2)"
      "\<not> (p0 = ''del'' \<and> length args = 1)" "\<not> (p0 = ''trace'' \<and> length args = 1)"
      "p0 \<noteq> ''quit''" "p0 \<noteq> ''show''" for p0 args
    using that ne [OF that(1)] by (auto simp: exec_cmd_def Let_def)
  have c: "exec_cmd e s cmd = (s, [Print_routes (rt s)], None)"
    if "split_ws cmd = ''show'' # args" for args
    using that ne [OF that] by (simp add: exec_cmd_def Let_def)
  have d: "CHR 0x0A \<notin> set usage" by (simp add: usage_def)
  from a b c d show ?thesis by blast
qed

theorem exec_cmd_unrecognised_witness:
  "split_ws ''add 127.0.1.3'' = [''add'', ''127.0.1.3'']
   \<and> exec_cmd example_env example_router ''add 127.0.1.3''
       = (example_router, [Print usage], None)"
proof -
  have sp: "split_ws ''add 127.0.1.3'' = [''add'', ''127.0.1.3'']"
    by (simp add: split_ws_def is_space_def)
  from exec_cmd_unrecognised [of example_env example_router "''add 127.0.1.3''"] sp
  show ?thesis by simp
qed

end
